theory Spec2Isabelle
  imports Main
begin

section \<open>JavaScript primitives used by the payload codec\<close>

text \<open>
  Payloads are JavaScript strings; they are modelled as \<open>string\<close>. All the
  characters the code looks at (the separators \<open>#\<close>, \<open>|\<close>, \<open>@\<close>, \<open>=\<close> and the
  decimal digits) are ASCII, so it makes no difference whether a character outside ASCII
  is one element of the list or several. The three parsers only ever call
  \<open>String.prototype.split\<close> with a one-character separator, which cuts the string at
  every occurrence of the separator and always returns at least one field (the empty
  string gives one empty field).
\<close>

fun split :: "char \<Rightarrow> string \<Rightarrow> string list" where
  "split sep [] = [[]]"
| "split sep (c # cs) =
     (if c = sep then [] # split sep cs
      else (case split sep cs of [] \<Rightarrow> [[c]] | f # fs \<Rightarrow> (c # f) # fs))"

text \<open>\<open>s.indexOf(c)\<close>: the position of the first occurrence, or \<open>-1\<close>.\<close>

fun indexOf :: "string \<Rightarrow> char \<Rightarrow> int" where
  "indexOf [] c = -1"
| "indexOf (x # xs) c =
     (if x = c then 0 else (let i = indexOf xs c in if i < 0 then -1 else i + 1))"

text \<open>\<open>a[i]\<close> on an array: \<open>undefined\<close> (here \<open>None\<close>) outside the array.\<close>

definition at :: "'a list \<Rightarrow> nat \<Rightarrow> 'a option" where
  "at xs i = (if i < length xs then Some (xs ! i) else None)"

text \<open>\<open>_.isEmpty\<close> of underscore, on a string: the string has length zero.\<close>

definition isEmpty :: "string \<Rightarrow> bool" where
  "isEmpty s = (length s = 0)"

subsection \<open>Plain objects with string values\<close>

text \<open>
  The codec builds its maps by assigning \<open>collection[key] = value\<close> on an object
  created by the literal \<open>{}\<close>. Such an object is modelled by the list of its own
  properties in the order in which JavaScript enumerates them: the keys that are array
  indices (canonical decimal numerals below \<open>2^32 - 1\<close>) first, in ascending numeric
  order, then the other keys in the order of their creation. Assigning to an existing
  key replaces the value and keeps the position. The key \<open>__proto__\<close> is inherited
  from \<open>Object.prototype\<close> as an accessor whose setter ignores any value that is not
  an object, so assigning a string to it creates no property. \<open>js_set\<close> is the
  assignment \<open>obj[k] = v\<close>, and \<open>js_get\<close> reads an own property of the object.
\<close>

type_synonym jsobj = "(string \<times> string) list"

definition isDigit :: "char \<Rightarrow> bool" where
  "isDigit c = (c \<in> set ''0123456789'')"

definition digitVal :: "char \<Rightarrow> int" where
  "digitVal c = of_char c - 48"

definition decVal :: "string \<Rightarrow> int" where
  "decVal s = foldl (\<lambda>a c. 10 * a + digitVal c) 0 s"

definition arrayIndex :: "string \<Rightarrow> int option" where
  "arrayIndex s =
     (if s \<noteq> [] \<and> list_all isDigit s \<and> (length s = 1 \<or> hd s \<noteq> CHR ''0'')
         \<and> decVal s < 4294967295
      then Some (decVal s) else None)"

definition goesBefore :: "string \<Rightarrow> string \<Rightarrow> bool" where
  "goesBefore k k' =
     (case arrayIndex k of
        None \<Rightarrow> False
      | Some n \<Rightarrow> (case arrayIndex k' of None \<Rightarrow> True | Some n' \<Rightarrow> n < n'))"

fun insertOwn :: "string \<Rightarrow> string \<Rightarrow> jsobj \<Rightarrow> jsobj" where
  "insertOwn k v [] = [(k, v)]"
| "insertOwn k v ((k', v') # ps) =
     (if goesBefore k k' then (k, v) # (k', v') # ps else (k', v') # insertOwn k v ps)"

fun replaceOwn :: "string \<Rightarrow> string \<Rightarrow> jsobj \<Rightarrow> jsobj" where
  "replaceOwn k v [] = []"
| "replaceOwn k v ((k', v') # ps) =
     (if k' = k then (k', v) # ps else (k', v') # replaceOwn k v ps)"

definition js_get :: "jsobj \<Rightarrow> string \<Rightarrow> string option" where
  "js_get obj k = map_of obj k"

definition js_set :: "jsobj \<Rightarrow> string \<Rightarrow> string \<Rightarrow> jsobj" where
  "js_set obj k v =
     (if k = ''__proto__'' then obj
      else if js_get obj k \<noteq> None then replaceOwn k v obj
      else insertOwn k v obj)"

section \<open>The payload codec (lib/ulParser.js)\<close>

text \<open>
  Every failure of the codec is a thrown \<open>errors.ParseError\<close>; the text of its
  message is not part of the model. A function that throws returns \<open>Inl ParseError\<close>.
\<close>

datatype error = ParseError

text \<open>\<open>Array.prototype.reduce\<close> with a callback that may throw.\<close>

fun reduce :: "('b \<Rightarrow> 'a \<Rightarrow> error + 'b) \<Rightarrow> 'b \<Rightarrow> 'a list \<Rightarrow> error + 'b" where
  "reduce f acc [] = Inr acc"
| "reduce f acc (x # xs) =
     (case f acc x of Inl e \<Rightarrow> Inl e | Inr acc' \<Rightarrow> reduce f acc' xs)"

definition addAttribute :: "char \<Rightarrow> jsobj \<Rightarrow> string \<Rightarrow> error + jsobj" where
  "addAttribute separator collection newAttr =
     (let fields = split separator newAttr in
      if length fields \<noteq> 2 then Inl ParseError
      else Inr (js_set collection (fields ! 0) (fields ! 1)))"

definition addAttributePair :: "jsobj \<Rightarrow> string list \<Rightarrow> error + jsobj" where
  "addAttributePair collection pair =
     (if length pair \<noteq> 2 then Inl ParseError
      else Inr (js_set collection (pair ! 0) (pair ! 1)))"

text \<open>
  \<open>chunk\<close> is a \<open>while\<close> loop that cuts \<open>size\<close> elements (here \<open>sz\<close>) off the
  front of the list (\<open>list.splice(0, size)\<close>) until the list is empty. With
  \<open>size = 0\<close> it never ends, so the loop is a partial function: \<open>None\<close> stands for
  not returning.
\<close>

partial_function (option) chunk_loop :: "'a list \<Rightarrow> nat \<Rightarrow> 'a list list \<Rightarrow> 'a list list option" where
  "chunk_loop list sz chunks =
     (if length list \<noteq> 0 then chunk_loop (drop sz list) sz (chunks @ [take sz list])
      else Some chunks)"

declare chunk_loop.simps [code]

definition chunk :: "'a list \<Rightarrow> nat \<Rightarrow> 'a list list option" where
  "chunk list sz = chunk_loop list sz []"

definition parseGroup :: "string \<Rightarrow> (error + jsobj) option" where
  "parseGroup grp =
     (let attributes = split CHR ''|'' grp in
      if length attributes = 0 \<or> length attributes mod 2 \<noteq> 0
         \<or> length (filter isEmpty attributes) > 0
      then Some (Inl ParseError)
      else (case chunk attributes 2 of
              None \<Rightarrow> None
            | Some chunks \<Rightarrow> Some (reduce addAttributePair [] chunks)))"

text \<open>\<open>groups.map(parseGroup)\<close>: the first group that throws ends the whole map.\<close>

fun mapGroups :: "('a \<Rightarrow> (error + 'b) option) \<Rightarrow> 'a list \<Rightarrow> (error + 'b list) option" where
  "mapGroups f [] = Some (Inr [])"
| "mapGroups f (g # gs) =
     (case f g of
        None \<Rightarrow> None
      | Some (Inl e) \<Rightarrow> Some (Inl e)
      | Some (Inr y) \<Rightarrow>
          (case mapGroups f gs of
             None \<Rightarrow> None
           | Some (Inl e) \<Rightarrow> Some (Inl e)
           | Some (Inr ys) \<Rightarrow> Some (Inr (y # ys))))"

definition parse :: "string \<Rightarrow> (error + jsobj list) option" where
  "parse payload = (let grps = split CHR ''#'' payload in mapGroups parseGroup grps)"

record commandInvocation =
  ci_deviceId :: "string option"
  ci_command :: "string option"
  ci_params :: jsobj

definition command :: "string \<Rightarrow> error + commandInvocation" where
  "command payload =
     (case split CHR ''|'' payload of
        [] \<Rightarrow> Inl ParseError
      | field0 # rest \<Rightarrow>
          if indexOf field0 CHR ''@'' < 0 then Inl ParseError
          else (let deviceData = split CHR ''@'' field0 in
                case reduce (addAttribute CHR ''='') [] rest of
                  Inl e \<Rightarrow> Inl e
                | Inr commandData \<Rightarrow>
                    Inr \<lparr>ci_deviceId = at deviceData 0, ci_command = at deviceData 1,
                         ci_params = commandData\<rparr>))"

record commandResult =
  cr_deviceId :: "string option"
  cr_command :: "string option"
  cr_result :: "string option"

definition result :: "string \<Rightarrow> error + commandResult" where
  "result payload =
     (let fields = split CHR ''|'' payload in
      case fields of
        [] \<Rightarrow> Inl ParseError
      | field0 # rest \<Rightarrow>
          if indexOf field0 CHR ''@'' < 0 then Inl ParseError
          else (let deviceData = split CHR ''@'' field0 in
                Inr \<lparr>cr_deviceId = at deviceData 0, cr_command = at deviceData 1,
                     cr_result = at fields 1\<rparr>))"

section \<open>The agent and its transport bindings (lib/iotagent-ul.js)\<close>

text \<open>
  A transport binding is a plugin module with a \<open>start\<close> and a \<open>stop\<close> function and
  any of the handlers \<open>deviceProvisioningHandler\<close>, \<open>configurationHandler\<close> and
  \<open>commandHandler\<close>. Each of these functions takes a callback and calls it once, with
  an error or with none; what the function does besides is opaque to the agent. A call is
  therefore modelled by what it passes to its callback (\<open>None\<close>: no error) and, where
  the agent runs several calls at once, by whether the callback is called before the
  function returns (\<open>Now\<close>) or at some later time (\<open>Later\<close>).
\<close>

datatype 'e completion = Now "'e option" | Later "'e option"

fun outcome :: "'e completion \<Rightarrow> 'e option" where
  "outcome (Now r) = r"
| "outcome (Later r) = r"

fun isLater :: "'e completion \<Rightarrow> bool" where
  "isLater (Now r) = False"
| "isLater (Later r) = True"

record ('c, 'a, 'e) binding =
  bindingStart :: "'c \<Rightarrow> 'e completion"
  bindingStop :: "'e completion"
  bindingHandler :: "string \<Rightarrow> ('a list \<Rightarrow> 'e option) option"

text \<open>The module variable \<open>transportBindings\<close> is the state of the agent.\<close>

record ('c, 'a, 'e) agent =
  transportBindings :: "('c, 'a, 'e) binding list"

text \<open>
  What the agent does is observed as a sequence of events: a function of a binding (or a
  step of the shutdown) is called, it calls its callback, and the agent calls the
  callback it was given itself (\<open>Final\<close>). Bindings are named by their position in
  \<open>transportBindings\<close>.
\<close>

datatype ('l, 'e) event = Invoked 'l | Completed 'l "'e option" | Final "'e option"

subsection \<open>The control flow of the \<open>async\<close> library\<close>

text \<open>
  \<open>async.series(tasks, callback)\<close> calls the tasks one after the other, each one when
  the one before has called its callback with no error. The first error ends the series:
  the tasks after it are not called, and the error goes to the final callback. The
  function returns the events of the tasks and the argument of the final callback.
\<close>

fun series :: "('l \<times> 'e option) list \<Rightarrow> ('l, 'e) event list \<times> 'e option" where
  "series [] = ([], None)"
| "series ((l, r) # tasks) =
     (case r of
        Some e \<Rightarrow> ([Invoked l, Completed l (Some e)], Some e)
      | None \<Rightarrow> (let (evs, res) = series tasks in (Invoked l # Completed l None # evs, res)))"

text \<open>
  \<open>async.map(items, iteratee, callback)\<close> calls the iteratee on every item in one
  loop, without waiting. The final callback is called once: with the first error that
  one of the calls reports, at the moment it is reported, or with no error when the last
  of the calls has reported success. \<open>dispatch\<close> is the loop, with the
  completions that happen inside it; \<open>laterOrder\<close> is the order in which the other
  calls complete, chosen by the schedule \<open>sched\<close> (positions that are missing from
  the schedule complete last, in ascending order); \<open>finish k\<close> puts the final callback
  into the events, \<open>k\<close> being the number of calls whose success is still awaited.
\<close>

fun dispatch :: "nat \<Rightarrow> 'e completion list \<Rightarrow> (nat, 'e) event list" where
  "dispatch i [] = []"
| "dispatch i (Now r # tasks) = Invoked i # Completed i r # dispatch (Suc i) tasks"
| "dispatch i (Later r # tasks) = Invoked i # dispatch (Suc i) tasks"

definition laterOrder :: "'e completion list \<Rightarrow> nat list \<Rightarrow> nat list" where
  "laterOrder tasks sched =
     (let later = filter (\<lambda>i. isLater (tasks ! i)) [0..<length tasks];
          chosen = remdups (filter (\<lambda>i. i \<in> set later) sched)
      in chosen @ filter (\<lambda>i. i \<notin> set chosen) later)"

fun finish :: "nat \<Rightarrow> ('l, 'e) event list \<Rightarrow> ('l, 'e) event list" where
  "finish 0 evs = Final None # evs"
| "finish (Suc k) [] = []"
| "finish (Suc k) (Completed l (Some e) # evs) = Completed l (Some e) # Final (Some e) # evs"
| "finish (Suc k) (Completed l None # evs) = Completed l None # finish k evs"
| "finish (Suc k) (ev # evs) = ev # finish (Suc k) evs"

fun firstError :: "('l, 'e) event list \<Rightarrow> 'e option" where
  "firstError [] = None"
| "firstError (Completed l (Some e) # evs) = Some e"
| "firstError (ev # evs) = firstError evs"

definition asyncMap :: "'e completion list \<Rightarrow> nat list \<Rightarrow> (nat, 'e) event list \<times> 'e option" where
  "asyncMap tasks sched =
     (let evs = dispatch 0 tasks @
                map (\<lambda>i. Completed i (outcome (tasks ! i))) (laterOrder tasks sched)
      in (finish (length tasks) evs, firstError evs))"

subsection \<open>Starting and stopping the bindings\<close>

text \<open>
  \<open>startTransportBindings\<close> loads the modules found in the \<open>bindings\<close> directory
  (the parameter \<open>found\<close>), stores them in \<open>transportBindings\<close> and starts them
  with \<open>async.map\<close>, the caller's callback being the final callback.
\<close>

definition startTransportBindings ::
  "'c \<Rightarrow> ('c, 'a, 'e) binding list \<Rightarrow> nat list \<Rightarrow> ('c, 'a, 'e) agent \<times> (nat, 'e) event list \<times> 'e option" where
  "startTransportBindings newConfig found sched =
     (\<lparr>transportBindings = found\<rparr>, asyncMap (map (\<lambda>b. bindingStart b newConfig) found) sched)"

definition stopTransportBindings ::
  "('c, 'a, 'e) agent \<Rightarrow> nat list \<Rightarrow> (nat, 'e) event list \<times> 'e option" where
  "stopTransportBindings ag sched = asyncMap (map bindingStop (transportBindings ag)) sched"

subsection \<open>Broadcasting an event to the bindings\<close>

text \<open>
  \<open>applyFunctionFromBinding\<close> collects, in the order of \<open>transportBindings\<close>, the
  function \<open>functionName\<close> of every binding that has one, bound to the arguments, and
  runs the collected functions with \<open>async.series\<close>, the caller's callback being the
  final callback.
\<close>

definition addHandler ::
  "'a list \<Rightarrow> string \<Rightarrow> (nat \<times> 'e option) list \<Rightarrow> nat \<times> ('c, 'a, 'e) binding \<Rightarrow> (nat \<times> 'e option) list" where
  "addHandler argument functionName current ib =
     (case bindingHandler (snd ib) functionName of
        Some handler \<Rightarrow> current @ [(fst ib, handler argument)]
      | None \<Rightarrow> current)"

definition applyFunctionFromBinding ::
  "'a list \<Rightarrow> string \<Rightarrow> ('c, 'a, 'e) agent \<Rightarrow> (nat, 'e) event list" where
  "applyFunctionFromBinding argument functionName ag =
     (let (evs, res) = series (foldl (addHandler argument functionName) []
                                  (enumerate 0 (transportBindings ag)))
      in evs @ [Final res])"

definition deviceProvisioningHandler :: "'a \<Rightarrow> ('c, 'a, 'e) agent \<Rightarrow> (nat, 'e) event list" where
  "deviceProvisioningHandler device ag =
     applyFunctionFromBinding [device] ''deviceProvisioningHandler'' ag"

definition configurationHandler :: "'a \<Rightarrow> ('c, 'a, 'e) agent \<Rightarrow> (nat, 'e) event list" where
  "configurationHandler configuration ag =
     applyFunctionFromBinding [configuration] ''configurationHandler'' ag"

definition commandHandler :: "'a \<Rightarrow> 'a \<Rightarrow> 'a \<Rightarrow> ('c, 'a, 'e) agent \<Rightarrow> (nat, 'e) event list" where
  "commandHandler ident type attributes ag =
     applyFunctionFromBinding [ident, type, attributes] ''commandHandler'' ag"

subsection \<open>Stopping the agent\<close>

text \<open>
  \<open>stop\<close> runs three steps with \<open>async.series\<close>: the bindings are stopped, then
  \<open>iotAgentLib.resetMiddlewares\<close> and \<open>iotAgentLib.deactivate\<close> are called (two
  functions of the library, given here by what they pass to their callbacks). The final
  callback of the series takes no argument and calls the caller's callback with none.
\<close>

datatype step = StopTransportBindings | ResetMiddlewares | Deactivate

definition stop ::
  "('c, 'a, 'e) agent \<Rightarrow> nat list \<Rightarrow> 'e option \<Rightarrow> 'e option \<Rightarrow> (step, 'e) event list" where
  "stop ag sched resetMiddlewares deactivate =
     (let (evs, res) = series [(StopTransportBindings, snd (stopTransportBindings ag sched)),
                               (ResetMiddlewares, resetMiddlewares),
                               (Deactivate, deactivate)]
      in evs @ [Final None])"

subsection \<open>Notions used to state the properties of the codec\<close>

text \<open>
  \<open>pairUp\<close> pairs consecutive tokens, the first of each pair being the key;
  \<open>setAll\<close> assigns a list of key/value pairs to an object, one after the other.
\<close>

fun pairUp :: "'a list \<Rightarrow> ('a \<times> 'a) list" where
  "pairUp (x # y # rest) = (x, y) # pairUp rest"
| "pairUp rest = []"

definition setAll :: "jsobj \<Rightarrow> (string \<times> string) list \<Rightarrow> jsobj" where
  "setAll obj kvs = foldl (\<lambda>acc (k, v). js_set acc k v) obj kvs"

subsection \<open>Notions used to state the properties of the agent\<close>

text \<open>
  What a sequence of events shows: the calls made, the completions with their results,
  and the arguments of the final callback, each in temporal order.
\<close>

fun invoked :: "('l, 'e) event list \<Rightarrow> 'l list" where
  "invoked [] = []"
| "invoked (Invoked l # evs) = l # invoked evs"
| "invoked (ev # evs) = invoked evs"

fun completed :: "('l, 'e) event list \<Rightarrow> ('l \<times> 'e option) list" where
  "completed [] = []"
| "completed (Completed l r # evs) = (l, r) # completed evs"
| "completed (ev # evs) = completed evs"

fun finals :: "('l, 'e) event list \<Rightarrow> 'e option list" where
  "finals [] = []"
| "finals (Final r # evs) = r # finals evs"
| "finals (ev # evs) = finals evs"

text \<open>The events of \<open>async.map\<close> before the final callback is put in.\<close>

definition rawEvents :: "'e completion list \<Rightarrow> nat list \<Rightarrow> (nat, 'e) event list" where
  "rawEvents tasks sched =
     dispatch 0 tasks @ map (\<lambda>i. Completed i (outcome (tasks ! i))) (laterOrder tasks sched)"

text \<open>The tasks that \<open>applyFunctionFromBinding\<close> collects from the bindings at positions \<open>n\<close>, \<open>n + 1\<close>, ...\<close>

fun collected ::
  "'a list \<Rightarrow> string \<Rightarrow> nat \<Rightarrow> ('c, 'a, 'e) binding list \<Rightarrow> (nat \<times> 'e option) list" where
  "collected args fn n [] = []"
| "collected args fn n (b # bs) =
     (case bindingHandler b fn of Some h \<Rightarrow> [(n, h args)] | None \<Rightarrow> []) @
     collected args fn (Suc n) bs"

text \<open>
  Three bindings for the examples: one with no handler at all, one whose functions all
  fail, and one whose functions all succeed.
\<close>

definition quietBinding :: "(unit, nat, string) binding" where
  "quietBinding =
     \<lparr>bindingStart = (\<lambda>c. Later None), bindingStop = Later None,
      bindingHandler = (\<lambda>name. None)\<rparr>"

definition failingBinding :: "(unit, nat, string) binding" where
  "failingBinding =
     \<lparr>bindingStart = (\<lambda>c. Now (Some ''boom'')), bindingStop = Later (Some ''boom''),
      bindingHandler = (\<lambda>name. if name = ''commandHandler''
                                 then Some (\<lambda>args. Some ''failed'') else None)\<rparr>"

definition workingBinding :: "(unit, nat, string) binding" where
  "workingBinding =
     \<lparr>bindingStart = (\<lambda>c. Later None), bindingStop = Now None,
      bindingHandler = (\<lambda>name. if name = ''commandHandler''
                                 then Some (\<lambda>args. None) else None)\<rparr>"

subsection \<open>The encoder of the spec\<close>




subsection \<open>Notions used to state the properties of tokens\<close>


section \<open>Properties of the JavaScript primitives\<close>

lemma split_not_Nil: "split c s \<noteq> []"
  by (induction s) (auto split: list.splits)


lemma length_split: "length (split c s) = Suc (length (filter (\<lambda>x. x = c) s))"
  by (induction s) (auto split: list.splits simp: split_not_Nil)

lemma split_absent: "c \<notin> set s \<Longrightarrow> split c s = [s]"
  by (induction s) auto

lemma split_append: "c \<notin> set a \<Longrightarrow> split c (a @ c # b) = a # split c b"
  by (induction a) auto

lemma split_head: "split c s = takeWhile (\<lambda>x. x \<noteq> c) s # tl (split c s)"
  by (induction s) (auto split: list.splits simp: split_not_Nil)

lemma split_tail:
  "c \<in> set s \<Longrightarrow> tl (split c s) = split c (tl (dropWhile (\<lambda>x. x \<noteq> c) s))"
  by (induction s) (auto split: list.splits if_splits simp: split_not_Nil)

text \<open>
  When the separator occurs, the first field is the text before its first occurrence and
  the second field the text between its first and its second occurrence (or the end).
\<close>

lemma split_present:
  "c \<in> set s \<Longrightarrow>
   split c s = takeWhile (\<lambda>x. x \<noteq> c) s #
               takeWhile (\<lambda>x. x \<noteq> c) (tl (dropWhile (\<lambda>x. x \<noteq> c) s)) #
               tl (split c (tl (dropWhile (\<lambda>x. x \<noteq> c) s)))"
  using split_head [of c s] split_tail [of c s]
    split_head [of c "tl (dropWhile (\<lambda>x. x \<noteq> c) s)"] by simp

lemma indexOf_absent: "c \<notin> set s \<Longrightarrow> indexOf s c = - 1"
  by (induction s) (auto simp: Let_def)

lemma indexOf_present: "c \<in> set s \<Longrightarrow> 0 \<le> indexOf s c"
  by (induction s) (auto simp: Let_def)

lemma indexOf_neg_iff: "(indexOf s c < 0) = (c \<notin> set s)"
  using indexOf_absent [of c s] indexOf_present [of c s] by auto

subsection \<open>Reading a property after assignments\<close>

lemma map_of_replaceOwn:
  "map_of obj k \<noteq> None \<Longrightarrow>
   map_of (replaceOwn k v obj) k' = (if k' = k then Some v else map_of obj k')"
  by (induction obj) (auto split: if_splits)

lemma map_of_insertOwn:
  "map_of obj k = None \<Longrightarrow>
   map_of (insertOwn k v obj) k' = (if k' = k then Some v else map_of obj k')"
  by (induction obj) (auto split: if_splits)

lemma js_get_js_set:
  "js_get (js_set obj k v) k' =
     (if k \<noteq> ''__proto__'' \<and> k' = k then Some v else js_get obj k')"
  by (simp add: js_set_def js_get_def map_of_replaceOwn map_of_insertOwn)

text \<open>After a run of assignments a key holds the value of its last assignment.\<close>

lemma js_get_setAll:
  "js_get (setAll obj kvs) k =
     (if k = ''__proto__'' then js_get obj k
      else (case map_of (rev kvs) k of None \<Rightarrow> js_get obj k | Some v \<Rightarrow> Some v))"
  unfolding setAll_def
proof (induction kvs arbitrary: obj)
  case Nil
  then show ?case by simp
next
  case (Cons kv kvs)
  obtain a b where kv: "kv = (a, b)" by (cases kv)
  show ?case
    by (auto simp add: Cons.IH kv js_get_js_set map_add_def split: option.splits)
qed

lemma foldl_js_set_setAll:
  "foldl (\<lambda>acc f. js_set acc (kf f) (vf f)) obj fs = setAll obj (map (\<lambda>f. (kf f, vf f)) fs)"
  by (induction fs arbitrary: obj) (auto simp: setAll_def)

section \<open>The measure parser\<close>

text \<open>On an even number of tokens the loop of \<open>chunk\<close> ends and returns the pairs.\<close>

lemma chunk_loop_two:
  "even (length xs) \<Longrightarrow>
   chunk_loop xs 2 acc = Some (acc @ map (\<lambda>(k, v). [k, v]) (pairUp xs))"
proof (induction xs arbitrary: acc rule: pairUp.induct)
  case (1 x y rest)
  then show ?case by (subst chunk_loop.simps) simp
next
  case "2_1"
  then show ?case by (subst chunk_loop.simps) simp
qed simp

lemma reduce_addAttributePair:
  "reduce addAttributePair obj (map (\<lambda>(k, v). [k, v]) kvs) = Inr (setAll obj kvs)"
  by (induction kvs arbitrary: obj) (auto simp: addAttributePair_def setAll_def)

lemma parseGroup_eq:
  "parseGroup g =
     (if even (length (split CHR ''|'' g)) \<and> [] \<notin> set (split CHR ''|'' g)
      then Some (Inr (setAll [] (pairUp (split CHR ''|'' g))))
      else Some (Inl ParseError))"
  by (auto simp: parseGroup_def Let_def chunk_def chunk_loop_two reduce_addAttributePair
      isEmpty_def filter_empty_conv even_iff_mod_2_eq_zero split_not_Nil)

lemma mapGroups_parseGroup:
  "mapGroups parseGroup gs =
     (if list_all (\<lambda>g. even (length (split CHR ''|'' g)) \<and> [] \<notin> set (split CHR ''|'' g)) gs
      then Some (Inr (map (\<lambda>g. setAll [] (pairUp (split CHR ''|'' g))) gs))
      else Some (Inl ParseError))"
  by (induction gs) (auto simp: parseGroup_eq)

lemma parse_eq:
  "parse payload =
     (if list_all (\<lambda>g. even (length (split CHR ''|'' g)) \<and> [] \<notin> set (split CHR ''|'' g))
           (split CHR ''#'' payload)
      then Some (Inr (map (\<lambda>g. setAll [] (pairUp (split CHR ''|'' g))) (split CHR ''#'' payload)))
      else Some (Inl ParseError))"
  by (simp add: parse_def mapGroups_parseGroup)

subsection \<open>Objects built by assignments\<close>


lemma set_insertOwn: "set (insertOwn k v obj) = insert (k, v) (set obj)"
proof (induction obj)
  case Nil
  then show ?case by simp
next
  case (Cons p obj)
  obtain k' v' where "p = (k', v')" by (cases p)
  with Cons.IH show ?case by (cases "goesBefore k k'") auto
qed

lemma keys_insertOwn: "set (map fst (insertOwn k v obj)) = insert k (set (map fst obj))"
  by (simp add: set_insertOwn)

lemma js_get_None: "(js_get obj k = None) = (k \<notin> set (map fst obj))"
  by (simp add: js_get_def map_of_eq_None_iff)

subsection \<open>Tokens, joining and splitting\<close>







text \<open>
  Claim C3, as amended. \<open>parse\<close> (the spec's parseMeasures) cuts the payload at every
  \<open>#\<close> into one or more groups and every group at every \<open>|\<close> into tokens. It
  returns, in the order of the groups, the objects obtained by assigning the consecutive
  pairs of tokens as key and value, if and only if every group has a non-empty,
  even-length sequence of tokens none of which is empty; otherwise it throws ParseError.
  The empty payload is rejected. Key and value are two tokens, so \<open>a=1|b=2#c=3\<close> is
  rejected (the group \<open>c=3\<close> is a single token), and \<open>a|1|b|2#c|3\<close> yields the groups
  \<open>{a:"1", b:"2"}\<close> and \<open>{c:"3"}\<close> in that order.
\<close>

theorem parse_spec:
  "parse payload =
     (if \<forall>g \<in> set (split CHR ''#'' payload).
           split CHR ''|'' g \<noteq> [] \<and> even (length (split CHR ''|'' g)) \<and>
           [] \<notin> set (split CHR ''|'' g)
      then Some (Inr (map (\<lambda>g. setAll [] (pairUp (split CHR ''|'' g))) (split CHR ''#'' payload)))
      else Some (Inl ParseError))
   \<and> split CHR ''#'' payload \<noteq> []
   \<and> parse [] = Some (Inl ParseError)
   \<and> parse ''a=1|b=2#c=3'' = Some (Inl ParseError)
   \<and> parse ''a|1|b|2#c|3'' = Some (Inr [[(''a'', ''1''), (''b'', ''2'')], [(''c'', ''3'')]])"
proof -
  have general: "parse payload =
     (if \<forall>g \<in> set (split CHR ''#'' payload).
           split CHR ''|'' g \<noteq> [] \<and> even (length (split CHR ''|'' g)) \<and>
           [] \<notin> set (split CHR ''|'' g)
      then Some (Inr (map (\<lambda>g. setAll [] (pairUp (split CHR ''|'' g))) (split CHR ''#'' payload)))
      else Some (Inl ParseError))"
    by (simp add: parse_eq list_all_iff split_not_Nil)
  have ex1: "parse [] = Some (Inl ParseError)" by code_simp
  have ex2: "parse ''a=1|b=2#c=3'' = Some (Inl ParseError)" by code_simp
  have ex3: "parse ''a|1|b|2#c|3'' = Some (Inr [[(''a'', ''1''), (''b'', ''2'')], [(''c'', ''3'')]])"
    by code_simp
  from general split_not_Nil [of "CHR ''#''" payload] ex1 ex2 ex3 show ?thesis by blast
qed

text \<open>The theorem at two payloads: a group with an empty token, and an accepted group.\<close>

theorem parse_spec_witness:
  "split CHR ''#'' ''t|15#h|40|p|'' = [''t|15'', ''h|40|p|''] \<and>
   split CHR ''|'' ''h|40|p|'' = [''h'', ''40'', ''p'', []] \<and>
   parse ''t|15#h|40|p|'' = Some (Inl ParseError) \<and>
   split CHR ''|'' ''t|15'' = [''t'', ''15''] \<and>
   parse ''t|15'' = Some (Inr [setAll [] [(''t'', ''15'')]])"
  using parse_spec [of "''t|15#h|40|p|''"] parse_spec [of "''t|15''"]
  by simp

text \<open>
  The example of claim C3 as the spec has it: the payload \<open>a=1|b=2#c=3\<close> has the groups
  \<open>a=1|b=2\<close> and \<open>c=3\<close>, the second has one token, and the payload is rejected.
\<close>

theorem parse_example_counterexample:
  "split CHR ''#'' ''a=1|b=2#c=3'' = [''a=1|b=2'', ''c=3''] \<and>
   split CHR ''|'' ''c=3'' = [''c=3''] \<and>
   parse ''a=1|b=2#c=3'' = Some (Inl ParseError)"
  by code_simp

text \<open>
  Claim C8, as amended. A payload all of whose groups have an even number of non-empty
  tokens is accepted whether or not a key occurs more than once in a group (keys are the
  tokens at the even positions), and in the resulting group every key other than
  \<open>__proto__\<close> has the value of its last occurrence; \<open>__proto__\<close> is never a key of
  the result. So \<open>a|1|a|2\<close> yields \<open>{a:"2"}\<close>. In \<open>a=1|a=2\<close> no key is repeated:
  it yields the single pair with key \<open>a=1\<close> and value \<open>a=2\<close>.
\<close>

theorem duplicate_keys_spec:
  "((\<forall>g \<in> set (split CHR ''#'' payload).
        even (length (split CHR ''|'' g)) \<and> [] \<notin> set (split CHR ''|'' g)) \<longrightarrow>
      (\<exists>objs. parse payload = Some (Inr objs) \<and>
         length objs = length (split CHR ''#'' payload) \<and>
         (\<forall>i k. i < length objs \<longrightarrow>
            js_get (objs ! i) k =
              (if k = ''__proto__'' then None
               else map_of (rev (pairUp (split CHR ''|'' (split CHR ''#'' payload ! i)))) k))))
   \<and> parse ''a|1|a|2'' = Some (Inr [[(''a'', ''2'')]])
   \<and> parse ''a=1|a=2'' = Some (Inr [[(''a=1'', ''a=2'')]])"
proof -
  have general: "\<exists>objs. parse payload = Some (Inr objs) \<and>
         length objs = length (split CHR ''#'' payload) \<and>
         (\<forall>i k. i < length objs \<longrightarrow>
            js_get (objs ! i) k =
              (if k = ''__proto__'' then None
               else map_of (rev (pairUp (split CHR ''|'' (split CHR ''#'' payload ! i)))) k))"
    if "\<forall>g \<in> set (split CHR ''#'' payload).
        even (length (split CHR ''|'' g)) \<and> [] \<notin> set (split CHR ''|'' g)"
  proof -
    have get: "js_get (setAll [] kvs) k =
        (if k = ''__proto__'' then None else map_of (rev kvs) k)" for kvs k
      unfolding js_get_setAll by (simp add: js_get_def split: option.splits)
    from that show ?thesis
      by (simp add: parse_eq list_all_iff get)
  qed
  have ex1: "parse ''a|1|a|2'' = Some (Inr [[(''a'', ''2'')]])" by code_simp
  have ex2: "parse ''a=1|a=2'' = Some (Inr [[(''a=1'', ''a=2'')]])" by code_simp
  from general ex1 ex2 show ?thesis by blast
qed

text \<open>The theorem at a group in which the key \<open>t\<close> occurs twice.\<close>

theorem duplicate_keys_spec_witness:
  "split CHR ''#'' ''t|1|h|7|t|2'' = [''t|1|h|7|t|2''] \<and>
   split CHR ''|'' ''t|1|h|7|t|2'' = [''t'', ''1'', ''h'', ''7'', ''t'', ''2''] \<and>
   (\<exists>obj. parse ''t|1|h|7|t|2'' = Some (Inr [obj]) \<and>
      js_get obj ''t'' = Some ''2'' \<and> js_get obj ''h'' = Some ''7'' \<and> js_get obj ''x'' = None)"
proof -
  have sp: "split CHR ''#'' ''t|1|h|7|t|2'' = [''t|1|h|7|t|2'']" by code_simp
  have toks: "split CHR ''|'' ''t|1|h|7|t|2'' = [''t'', ''1'', ''h'', ''7'', ''t'', ''2'']"
    by code_simp
  from duplicate_keys_spec [of "''t|1|h|7|t|2''"] sp toks
  obtain objs where p: "parse ''t|1|h|7|t|2'' = Some (Inr objs)" and l: "length objs = 1"
    and g: "\<And>i k. i < length objs \<Longrightarrow> js_get (objs ! i) k =
              (if k = ''__proto__'' then None
               else map_of (rev (pairUp (split CHR ''|'' ([''t|1|h|7|t|2''] ! i)))) k)"
    by auto
  from l obtain obj where o: "objs = [obj]" by (cases objs) auto
  from g [of 0] o toks have "js_get obj k =
      (if k = ''__proto__'' then None
       else map_of (rev (pairUp [''t'', ''1'', ''h'', ''7'', ''t'', ''2''])) k)" for k
    by simp
  then have "js_get obj ''t'' = Some ''2'' \<and> js_get obj ''h'' = Some ''7'' \<and> js_get obj ''x'' = None"
    by simp
  with sp toks p o show ?thesis by simp
qed

text \<open>
  The example of claim C8 as the spec has it: \<open>a=1|a=2\<close> is accepted, but the result
  has the one key \<open>a=1\<close>; it does not map \<open>a\<close> to \<open>2\<close>.
\<close>

theorem duplicate_key_example_counterexample:
  "split CHR ''|'' ''a=1|a=2'' = [''a=1'', ''a=2''] \<and>
   parse ''a=1|a=2'' = Some (Inr [[(''a=1'', ''a=2'')]]) \<and>
   js_get [(''a=1'', ''a=2'')] ''a'' = None"
  by code_simp

section \<open>Encoding what was parsed\<close>













section \<open>The command parsers\<close>

lemma reduce_addAttribute:
  "reduce (addAttribute sep) obj fs =
     (if list_all (\<lambda>f. length (split sep f) = 2) fs
      then Inr (foldl (\<lambda>acc f. js_set acc (split sep f ! 0) (split sep f ! 1)) obj fs)
      else Inl ParseError)"
  by (induction fs arbitrary: obj) (auto simp: addAttribute_def Let_def)

lemma command_eq:
  "split CHR ''|'' payload = field0 # rest \<Longrightarrow>
   command payload =
     (if CHR ''@'' \<in> set field0 \<and> list_all (\<lambda>f. length (split CHR ''='' f) = 2) rest
      then Inr \<lparr>ci_deviceId = Some (takeWhile (\<lambda>x. x \<noteq> CHR ''@'') field0),
                ci_command = Some (takeWhile (\<lambda>x. x \<noteq> CHR ''@'')
                                     (tl (dropWhile (\<lambda>x. x \<noteq> CHR ''@'') field0))),
                ci_params = foldl (\<lambda>acc f. js_set acc (split CHR ''='' f ! 0)
                                                  (split CHR ''='' f ! 1)) [] rest\<rparr>
      else Inl ParseError)"
  by (auto simp: command_def indexOf_neg_iff reduce_addAttribute at_def Let_def split_present)

lemma result_eq:
  "split CHR ''|'' payload = field0 # rest \<Longrightarrow>
   result payload =
     (if CHR ''@'' \<in> set field0
      then Inr \<lparr>cr_deviceId = Some (takeWhile (\<lambda>x. x \<noteq> CHR ''@'') field0),
                cr_command = Some (takeWhile (\<lambda>x. x \<noteq> CHR ''@'')
                                     (tl (dropWhile (\<lambda>x. x \<noteq> CHR ''@'') field0))),
                cr_result = (case rest of [] \<Rightarrow> None | r # ignored \<Rightarrow> Some r)\<rparr>
      else Inl ParseError)"
  by (auto simp: result_def indexOf_neg_iff at_def Let_def split_present split: list.splits)

text \<open>
  Claim C4, as amended. \<open>command\<close> (the spec's parseCommand) throws ParseError if the first
  \<open>|\<close>-delimited field contains no \<open>@\<close> or if some trailing field does not split
  into exactly two parts on \<open>=\<close>. Otherwise it returns the invocation whose
  \<open>deviceId\<close> and \<open>command\<close> are the first two parts of the first field split on
  \<open>@\<close> (both exist) and whose \<open>params\<close> are the trailing fields assigned as key
  and value, in order: every key but \<open>__proto__\<close> holds the value of its last field,
  and a field with the key \<open>__proto__\<close> leaves no entry.
  \<open>dev1@ping|times=3\<close> gives \<open>{deviceId:"dev1", command:"ping", params:{times:"3"}}\<close>.
\<close>

theorem command_spec:
  "(\<exists>field0 rest. split CHR ''|'' payload = field0 # rest \<and>
      (if CHR ''@'' \<notin> set field0 \<or> (\<exists>f \<in> set rest. length (split CHR ''='' f) \<noteq> 2)
       then command payload = Inl ParseError
       else \<exists>dev cmd more ps.
              split CHR ''@'' field0 = dev # cmd # more \<and>
              command payload = Inr \<lparr>ci_deviceId = Some dev, ci_command = Some cmd, ci_params = ps\<rparr> \<and>
              ps = foldl (\<lambda>acc f. js_set acc (split CHR ''='' f ! 0) (split CHR ''='' f ! 1)) [] rest \<and>
              (\<forall>k. js_get ps k =
                 (if k = ''__proto__'' then None
                  else map_of (rev (map (\<lambda>f. (split CHR ''='' f ! 0, split CHR ''='' f ! 1)) rest)) k))))
   \<and> command ''dev1@ping|times=3'' =
       Inr \<lparr>ci_deviceId = Some ''dev1'', ci_command = Some ''ping'', ci_params = [(''times'', ''3'')]\<rparr>"
proof -
  obtain field0 rest where sp: "split CHR ''|'' payload = field0 # rest"
    using split_not_Nil [of "CHR ''|''" payload] by (cases "split CHR ''|'' payload") auto
  have get: "js_get (foldl (\<lambda>acc f. js_set acc (split CHR ''='' f ! 0) (split CHR ''='' f ! 1)) [] rest) k =
       (if k = ''__proto__'' then None
        else map_of (rev (map (\<lambda>f. (split CHR ''='' f ! 0, split CHR ''='' f ! 1)) rest)) k)" for k
    unfolding foldl_js_set_setAll js_get_setAll
    by (simp add: js_get_def rev_map split: option.splits)
  have general: "if CHR ''@'' \<notin> set field0 \<or> (\<exists>f \<in> set rest. length (split CHR ''='' f) \<noteq> 2)
       then command payload = Inl ParseError
       else \<exists>dev cmd more ps.
              split CHR ''@'' field0 = dev # cmd # more \<and>
              command payload = Inr \<lparr>ci_deviceId = Some dev, ci_command = Some cmd, ci_params = ps\<rparr> \<and>
              ps = foldl (\<lambda>acc f. js_set acc (split CHR ''='' f ! 0) (split CHR ''='' f ! 1)) [] rest \<and>
              (\<forall>k. js_get ps k =
                 (if k = ''__proto__'' then None
                  else map_of (rev (map (\<lambda>f. (split CHR ''='' f ! 0, split CHR ''='' f ! 1)) rest)) k))"
  proof (cases "CHR ''@'' \<in> set field0 \<and> list_all (\<lambda>f. length (split CHR ''='' f) = 2) rest")
    case True
    then have "split CHR ''@'' field0 =
        takeWhile (\<lambda>x. x \<noteq> CHR ''@'') field0 #
        takeWhile (\<lambda>x. x \<noteq> CHR ''@'') (tl (dropWhile (\<lambda>x. x \<noteq> CHR ''@'') field0)) #
        tl (split CHR ''@'' (tl (dropWhile (\<lambda>x. x \<noteq> CHR ''@'') field0)))"
      by (simp add: split_present)
    moreover from True
    have "\<not> (CHR ''@'' \<notin> set field0 \<or> (\<exists>f \<in> set rest. length (split CHR ''='' f) \<noteq> 2))"
      by (simp add: list_all_iff)
    ultimately show ?thesis
      using True get by (simp add: command_eq [OF sp])
  next
    case False
    then show ?thesis by (auto simp: command_eq [OF sp] list_all_iff)
  qed
  have example: "command ''dev1@ping|times=3'' =
       Inr \<lparr>ci_deviceId = Some ''dev1'', ci_command = Some ''ping'', ci_params = [(''times'', ''3'')]\<rparr>"
    by code_simp
  from sp general example show ?thesis by blast
qed

text \<open>The theorem at the payload of the example, and at a payload with no \<open>@\<close>.\<close>

theorem command_spec_witness:
  "split CHR ''|'' ''dev1@ping|times=3'' = [''dev1@ping'', ''times=3''] \<and>
   CHR ''@'' \<in> set ''dev1@ping'' \<and> length (split CHR ''='' ''times=3'') = 2 \<and>
   (\<exists>ps. command ''dev1@ping|times=3'' =
       Inr \<lparr>ci_deviceId = Some ''dev1'', ci_command = Some ''ping'', ci_params = ps\<rparr> \<and>
       js_get ps ''times'' = Some ''3'') \<and>
   command ''dev1'' = Inl ParseError"
  using command_spec [of "''dev1@ping|times=3''"] command_spec [of "''dev1''"]
  by (simp add: js_get_js_set)

text \<open>
  Claim C4 as the spec has it fails at a trailing field with the key \<open>__proto__\<close>:
  the payload \<open>d@c|__proto__=x\<close> is accepted, its trailing field splits into the two
  parts \<open>__proto__\<close> and \<open>x\<close>, and the returned \<open>params\<close> are empty.
\<close>

theorem command_proto_counterexample:
  "split CHR ''|'' ''d@c|__proto__=x'' = [''d@c'', ''__proto__=x''] \<and>
   split CHR ''='' ''__proto__=x'' = [''__proto__'', ''x''] \<and>
   command ''d@c|__proto__=x'' =
     Inr \<lparr>ci_deviceId = Some ''d'', ci_command = Some ''c'', ci_params = []\<rparr> \<and>
   js_get [] ''__proto__'' = None"
  by code_simp

text \<open>
  Claim C5. When the first \<open>|\<close>-delimited field of the payload contains an \<open>@\<close>,
  \<open>result\<close> (the spec's parseResult) returns the first two parts of that field split
  on \<open>@\<close> as \<open>deviceId\<close> and \<open>command\<close>, and the first \<open>|\<close>-segment after that
  field as \<open>result\<close>; further segments change nothing. It throws ParseError exactly
  when the first field contains no \<open>@\<close>. \<open>dev1@ping|OK|ignored\<close> gives
  \<open>{deviceId:"dev1", command:"ping", result:"OK"}\<close>.
\<close>

theorem result_spec:
  "(\<exists>field0 rest. split CHR ''|'' payload = field0 # rest \<and>
      (if CHR ''@'' \<in> set field0
       then \<exists>dev cmd more.
              split CHR ''@'' field0 = dev # cmd # more \<and>
              result payload =
                Inr \<lparr>cr_deviceId = Some dev, cr_command = Some cmd,
                     cr_result = (case rest of [] \<Rightarrow> None | r # discarded \<Rightarrow> Some r)\<rparr>
       else result payload = Inl ParseError))
   \<and> (CHR ''@'' \<in> set header \<and> CHR ''|'' \<notin> set header \<and> CHR ''|'' \<notin> set r \<longrightarrow>
        result (header @ ''|'' @ r @ ''|'' @ extra) = result (header @ ''|'' @ r))
   \<and> result ''dev1@ping|OK|ignored'' =
       Inr \<lparr>cr_deviceId = Some ''dev1'', cr_command = Some ''ping'', cr_result = Some ''OK''\<rparr>"
proof -
  obtain field0 rest where sp: "split CHR ''|'' payload = field0 # rest"
    using split_not_Nil [of "CHR ''|''" payload] by (cases "split CHR ''|'' payload") auto
  have general: "if CHR ''@'' \<in> set field0
       then \<exists>dev cmd more.
              split CHR ''@'' field0 = dev # cmd # more \<and>
              result payload =
                Inr \<lparr>cr_deviceId = Some dev, cr_command = Some cmd,
                     cr_result = (case rest of [] \<Rightarrow> None | r # discarded \<Rightarrow> Some r)\<rparr>
       else result payload = Inl ParseError"
    by (simp add: result_eq [OF sp] split_present)
  have truncating: "result (header @ ''|'' @ r @ ''|'' @ extra) = result (header @ ''|'' @ r)"
    if "CHR ''|'' \<notin> set header" "CHR ''|'' \<notin> set r"
  proof -
    have a: "split CHR ''|'' (header @ ''|'' @ r @ ''|'' @ extra) = header # r # split CHR ''|'' extra"
      using that by (simp add: split_append)
    have b: "split CHR ''|'' (header @ ''|'' @ r) = header # [r]"
      using that by (simp add: split_append split_absent)
    show ?thesis using result_eq [OF a] result_eq [OF b] by simp
  qed
  have example: "result ''dev1@ping|OK|ignored'' =
       Inr \<lparr>cr_deviceId = Some ''dev1'', cr_command = Some ''ping'', cr_result = Some ''OK''\<rparr>"
    by code_simp
  from sp general truncating example show ?thesis by blast
qed

text \<open>The theorem at the payload of the example, and at a payload with no \<open>@\<close>.\<close>

theorem result_spec_witness:
  "split CHR ''|'' ''dev1@ping|OK|ignored'' = [''dev1@ping'', ''OK'', ''ignored''] \<and>
   CHR ''@'' \<in> set ''dev1@ping'' \<and> CHR ''|'' \<notin> set ''dev1@ping'' \<and> CHR ''|'' \<notin> set ''OK'' \<and>
   result ''dev1@ping|OK|ignored'' = result ''dev1@ping|OK'' \<and>
   result ''dev1@ping|OK'' =
     Inr \<lparr>cr_deviceId = Some ''dev1'', cr_command = Some ''ping'', cr_result = Some ''OK''\<rparr> \<and>
   result ''dev1|OK'' = Inl ParseError"
  using result_spec [of "''dev1@ping|OK|ignored''" "''dev1@ping''" "''OK''" "''ignored''"]
    result_spec [of "''dev1|OK''" "[]" "[]" "[]"]
  by simp

text \<open>
  Claim C9. On a payload that contains an \<open>@\<close> and no \<open>|\<close>, \<open>result\<close> does not
  throw: it returns the \<open>deviceId\<close> and the \<open>command\<close> of the header, and its
  \<open>result\<close> field is undefined (\<open>fields[1]\<close> of a one-element array).
\<close>

theorem result_without_segment:
  "(CHR ''@'' \<in> set payload \<and> CHR ''|'' \<notin> set payload \<longrightarrow>
      (\<exists>dev cmd more.
         split CHR ''@'' payload = dev # cmd # more \<and>
         result payload = Inr \<lparr>cr_deviceId = Some dev, cr_command = Some cmd, cr_result = None\<rparr>))
   \<and> result ''dev1@ping'' =
       Inr \<lparr>cr_deviceId = Some ''dev1'', cr_command = Some ''ping'', cr_result = None\<rparr>"
proof -
  have general: "\<exists>dev cmd more.
         split CHR ''@'' payload = dev # cmd # more \<and>
         result payload = Inr \<lparr>cr_deviceId = Some dev, cr_command = Some cmd, cr_result = None\<rparr>"
    if "CHR ''@'' \<in> set payload" "CHR ''|'' \<notin> set payload"
  proof -
    have sp: "split CHR ''|'' payload = payload # []"
      using that by (simp add: split_absent)
    show ?thesis using that by (simp add: result_eq [OF sp] split_present)
  qed
  have example: "result ''dev1@ping'' =
       Inr \<lparr>cr_deviceId = Some ''dev1'', cr_command = Some ''ping'', cr_result = None\<rparr>"
    by code_simp
  from general example show ?thesis by blast
qed

text \<open>The theorem at the payload \<open>a@b\<close>.\<close>

theorem result_without_segment_witness:
  "CHR ''@'' \<in> set ''a@b'' \<and> CHR ''|'' \<notin> set ''a@b'' \<and>
   result ''a@b'' = Inr \<lparr>cr_deviceId = Some ''a'', cr_command = Some ''b'', cr_result = None\<rparr>"
  using result_without_segment [of "''a@b''"] by simp

text \<open>
  Claim C10, as amended. When the first \<open>|\<close>-delimited field contains more than one
  \<open>@\<close>, \<open>result\<close> succeeds, and \<open>command\<close> succeeds provided every trailing field
  splits into exactly two parts on \<open>=\<close> (it throws ParseError otherwise). Both take the
  text before the first \<open>@\<close> as \<open>deviceId\<close> and the text between the first and the
  second \<open>@\<close> as \<open>command\<close>; the remaining \<open>@\<close>-segments of the header, of which
  there is at least one, are in no field of the result. On \<open>a@b@c\<close> both succeed.
\<close>

theorem multiple_at_spec:
  "(split CHR ''|'' payload = field0 # rest \<and> 1 < length (filter (\<lambda>x. x = CHR ''@'') field0) \<longrightarrow>
      (\<exists>dev cmd seg discarded.
         split CHR ''@'' field0 = dev # cmd # seg # discarded \<and>
         dev = takeWhile (\<lambda>x. x \<noteq> CHR ''@'') field0 \<and>
         cmd = takeWhile (\<lambda>x. x \<noteq> CHR ''@'') (tl (dropWhile (\<lambda>x. x \<noteq> CHR ''@'') field0)) \<and>
         result payload =
           Inr \<lparr>cr_deviceId = Some dev, cr_command = Some cmd,
                cr_result = (case rest of [] \<Rightarrow> None | r # ignored \<Rightarrow> Some r)\<rparr> \<and>
         command payload =
           (if list_all (\<lambda>f. length (split CHR ''='' f) = 2) rest
            then Inr \<lparr>ci_deviceId = Some dev, ci_command = Some cmd,
                      ci_params = foldl (\<lambda>acc f. js_set acc (split CHR ''='' f ! 0)
                                                        (split CHR ''='' f ! 1)) [] rest\<rparr>
            else Inl ParseError)))
   \<and> command ''a@b@c'' = Inr \<lparr>ci_deviceId = Some ''a'', ci_command = Some ''b'', ci_params = []\<rparr>
   \<and> result ''a@b@c'' = Inr \<lparr>cr_deviceId = Some ''a'', cr_command = Some ''b'', cr_result = None\<rparr>"
proof -
  have general: "\<exists>dev cmd seg discarded.
         split CHR ''@'' field0 = dev # cmd # seg # discarded \<and>
         dev = takeWhile (\<lambda>x. x \<noteq> CHR ''@'') field0 \<and>
         cmd = takeWhile (\<lambda>x. x \<noteq> CHR ''@'') (tl (dropWhile (\<lambda>x. x \<noteq> CHR ''@'') field0)) \<and>
         result payload =
           Inr \<lparr>cr_deviceId = Some dev, cr_command = Some cmd,
                cr_result = (case rest of [] \<Rightarrow> None | r # ignored \<Rightarrow> Some r)\<rparr> \<and>
         command payload =
           (if list_all (\<lambda>f. length (split CHR ''='' f) = 2) rest
            then Inr \<lparr>ci_deviceId = Some dev, ci_command = Some cmd,
                      ci_params = foldl (\<lambda>acc f. js_set acc (split CHR ''='' f ! 0)
                                                        (split CHR ''='' f ! 1)) [] rest\<rparr>
            else Inl ParseError)"
    if sp: "split CHR ''|'' payload = field0 # rest"
      and many: "1 < length (filter (\<lambda>x. x = CHR ''@'') field0)"
  proof -
    from many have "filter (\<lambda>x. x = CHR ''@'') field0 \<noteq> []" by auto
    then have present: "CHR ''@'' \<in> set field0"
      by (auto simp: filter_empty_conv)
    have "length (split CHR ''@'' field0) = Suc (length (filter (\<lambda>x. x = CHR ''@'') field0))"
      by (rule length_split)
    with many have "3 \<le> length (tl (tl (split CHR ''@'' field0))) + 2" by simp
    then obtain seg discarded where
      "tl (split CHR ''@'' (tl (dropWhile (\<lambda>x. x \<noteq> CHR ''@'') field0))) = seg # discarded"
      using split_present [OF present]
      by (cases "tl (split CHR ''@'' (tl (dropWhile (\<lambda>x. x \<noteq> CHR ''@'') field0)))") auto
    with split_present [OF present] present show ?thesis
      by (simp add: result_eq [OF sp] command_eq [OF sp])
  qed
  have ex1: "command ''a@b@c'' = Inr \<lparr>ci_deviceId = Some ''a'', ci_command = Some ''b'', ci_params = []\<rparr>"
    by code_simp
  have ex2: "result ''a@b@c'' = Inr \<lparr>cr_deviceId = Some ''a'', cr_command = Some ''b'', cr_result = None\<rparr>"
    by code_simp
  from general ex1 ex2 show ?thesis by blast
qed

text \<open>The theorem at a payload with three \<open>@\<close> in its header and one parameter.\<close>

theorem multiple_at_spec_witness:
  "split CHR ''|'' ''d1@on@x@y|t=1'' = ''d1@on@x@y'' # [''t=1''] \<and>
   1 < length (filter (\<lambda>x. x = CHR ''@'') ''d1@on@x@y'') \<and>
   split CHR ''@'' ''d1@on@x@y'' = [''d1'', ''on'', ''x'', ''y''] \<and>
   result ''d1@on@x@y|t=1'' =
     Inr \<lparr>cr_deviceId = Some ''d1'', cr_command = Some ''on'', cr_result = Some ''t=1''\<rparr> \<and>
   command ''d1@on@x@y|t=1'' =
     Inr \<lparr>ci_deviceId = Some ''d1'', ci_command = Some ''on'', ci_params = [(''t'', ''1'')]\<rparr>"
proof -
  have sp: "split CHR ''|'' ''d1@on@x@y|t=1'' = ''d1@on@x@y'' # [''t=1'']" by code_simp
  have many: "1 < length (filter (\<lambda>x. x = CHR ''@'') ''d1@on@x@y'')" by simp
  have at: "split CHR ''@'' ''d1@on@x@y'' = [''d1'', ''on'', ''x'', ''y'']" by code_simp
  have params: "foldl (\<lambda>acc f. js_set acc (split CHR ''='' f ! 0) (split CHR ''='' f ! 1)) [] [''t=1'']
      = [(''t'', ''1'')]" by code_simp
  have two: "list_all (\<lambda>f. length (split CHR ''='' f) = 2) [''t=1'']" by code_simp
  from multiple_at_spec [of "''d1@on@x@y|t=1''" "''d1@on@x@y''" "[''t=1'']"] sp many
  obtain dev cmd seg discarded where
    "split CHR ''@'' ''d1@on@x@y'' = dev # cmd # seg # discarded"
    "result ''d1@on@x@y|t=1'' =
           Inr \<lparr>cr_deviceId = Some dev, cr_command = Some cmd,
                cr_result = (case [''t=1''] of [] \<Rightarrow> None | r # ignored \<Rightarrow> Some r)\<rparr>"
    "command ''d1@on@x@y|t=1'' =
           (if list_all (\<lambda>f. length (split CHR ''='' f) = 2) [''t=1'']
            then Inr \<lparr>ci_deviceId = Some dev, ci_command = Some cmd,
                      ci_params = foldl (\<lambda>acc f. js_set acc (split CHR ''='' f ! 0)
                                                        (split CHR ''='' f ! 1)) [] [''t=1'']\<rparr>
            else Inl ParseError)"
    by blast
  with sp many at params two show ?thesis by simp
qed

text \<open>
  Claim C10 as the spec has it fails for \<open>command\<close>: the header of \<open>a@b@c|x\<close> contains
  two \<open>@\<close>, and the payload is rejected because of its trailing field \<open>x\<close>.
\<close>

theorem multiple_at_command_counterexample:
  "split CHR ''|'' ''a@b@c|x'' = [''a@b@c'', ''x''] \<and>
   length (filter (\<lambda>x. x = CHR ''@'') ''a@b@c'') = 2 \<and>
   command ''a@b@c|x'' = Inl ParseError"
  by code_simp

section \<open>Broadcasting and stopping: the series\<close>

lemma series_success:
  "\<forall>t \<in> set tasks. snd t = None \<Longrightarrow>
   series tasks = (concat (map (\<lambda>t. [Invoked (fst t), Completed (fst t) None]) tasks), None)"
  by (induction tasks) auto

lemma series_failure:
  "\<forall>t \<in> set pre. snd t = None \<Longrightarrow>
   series (pre @ (l, Some e) # post) =
     (concat (map (\<lambda>t. [Invoked (fst t), Completed (fst t) None]) pre) @
      [Invoked l, Completed l (Some e)], Some e)"
  by (induction pre) auto

lemma foldl_addHandler:
  "foldl (addHandler args fn) current (enumerate n bs) = current @ collected args fn n bs"
  by (induction bs arbitrary: current n) (auto simp: addHandler_def split: option.splits)

lemma collected_append:
  "collected args fn n (xs @ ys) = collected args fn n xs @ collected args fn (n + length xs) ys"
  by (induction xs arbitrary: n) auto

lemma upt_0_Suc: "[0..<Suc k] = 0 # map Suc [0..<k]"
  by (simp add: upt_conv_Cons map_Suc_upt del: upt_Suc)

text \<open>The collected tasks belong to the bindings that have the handler, in their order.\<close>

lemma collected_positions:
  "map fst (collected args fn n bs) =
     map (\<lambda>i. n + i) (filter (\<lambda>i. bindingHandler (bs ! i) fn \<noteq> None) [0..<length bs])"
proof (induction bs arbitrary: n)
  case Nil
  then show ?case by simp
next
  case (Cons b bs)
  have "map fst (collected args fn (Suc n) bs) =
      map (\<lambda>i. n + i) (map Suc (filter (\<lambda>i. bindingHandler (bs ! i) fn \<noteq> None) [0..<length bs]))"
    by (simp add: Cons.IH)
  then show ?case
    by (auto simp: upt_0_Suc filter_map comp_def simp del: upt_Suc split: option.splits)
qed

lemma collected_outcomes:
  "(\<forall>t \<in> set (collected args fn n bs). snd t = None) =
   (\<forall>b \<in> set bs. \<forall>h. bindingHandler b fn = Some h \<longrightarrow> h args = None)"
  by (induction bs arbitrary: n) (auto split: option.splits)

lemma collected_none:
  "(\<forall>b \<in> set bs. bindingHandler b fn = None) \<Longrightarrow> collected args fn n bs = []"
  by (induction bs arbitrary: n) auto

lemma applyFunctionFromBinding_eq:
  "applyFunctionFromBinding args fn ag =
     (let (evs, res) = series (collected args fn 0 (transportBindings ag)) in evs @ [Final res])"
  using foldl_addHandler [of args fn "[]" 0 "transportBindings ag"]
  by (simp add: applyFunctionFromBinding_def)

lemma concat_events:
  "concat (map (\<lambda>t. [Invoked (fst t), Completed (fst t) None]) tasks) =
   concat (map (\<lambda>i. [Invoked i, Completed i None]) (map fst tasks))"
  by (induction tasks) auto

text \<open>
  Claim C1. For every function name, arguments and list of bindings,
  \<open>applyFunctionFromBinding\<close> (the spec's broadcast) calls the handlers of the bindings
  that have a handler of that name, in the order of the list, each after the one before
  has completed. If none of them fails, all are called and the final callback gets no
  error. If the binding \<open>b\<close> after the bindings \<open>pre\<close> is the first whose handler
  fails, the handlers of \<open>pre\<close> and of \<open>b\<close> are called, those of the bindings
  \<open>post\<close> after \<open>b\<close> are not, and the final callback gets the error of \<open>b\<close>. If no
  binding has the handler, the final callback is called with no error and nothing else
  happens.
\<close>

theorem broadcast_spec:
  fixes ag :: "('c, 'a, 'e) agent"
  shows "((\<forall>b \<in> set (transportBindings ag). \<forall>h. bindingHandler b fn = Some h \<longrightarrow> h args = None) \<longrightarrow>
      applyFunctionFromBinding args fn ag =
        concat (map (\<lambda>i. [Invoked i, Completed i None])
          (filter (\<lambda>i. bindingHandler (transportBindings ag ! i) fn \<noteq> None)
             [0..<length (transportBindings ag)])) @ [Final None])
   \<and> (transportBindings ag = pre @ b # post \<and> bindingHandler b fn = Some h \<and> h args = Some e \<and>
       (\<forall>b' \<in> set pre. \<forall>h'. bindingHandler b' fn = Some h' \<longrightarrow> h' args = None) \<longrightarrow>
      applyFunctionFromBinding args fn ag =
        concat (map (\<lambda>i. [Invoked i, Completed i None])
          (filter (\<lambda>i. bindingHandler (pre ! i) fn \<noteq> None) [0..<length pre])) @
        [Invoked (length pre), Completed (length pre) (Some e), Final (Some e)])
   \<and> ((\<forall>b \<in> set (transportBindings ag). bindingHandler b fn = None) \<longrightarrow>
      applyFunctionFromBinding args fn ag = [Final None])"
proof -
  have success: "applyFunctionFromBinding args fn ag =
        concat (map (\<lambda>i. [Invoked i, Completed i None])
          (filter (\<lambda>i. bindingHandler (transportBindings ag ! i) fn \<noteq> None)
             [0..<length (transportBindings ag)])) @ [Final None]"
    if "\<forall>b \<in> set (transportBindings ag). \<forall>h. bindingHandler b fn = Some h \<longrightarrow> h args = None"
  proof -
    from that have "\<forall>t \<in> set (collected args fn 0 (transportBindings ag)). snd t = None"
      by (simp only: collected_outcomes)
    then show ?thesis
      using collected_positions [of args fn 0 "transportBindings ag"]
      by (simp add: applyFunctionFromBinding_eq series_success concat_events)
  qed
  have failure: "applyFunctionFromBinding args fn ag =
        concat (map (\<lambda>i. [Invoked i, Completed i None])
          (filter (\<lambda>i. bindingHandler (pre ! i) fn \<noteq> None) [0..<length pre])) @
        [Invoked (length pre), Completed (length pre) (Some e), Final (Some e)]"
    if bs: "transportBindings ag = pre @ b # post" and h: "bindingHandler b fn = Some h"
      and e: "h args = Some e"
      and ok: "\<forall>b' \<in> set pre. \<forall>h'. bindingHandler b' fn = Some h' \<longrightarrow> h' args = None"
  proof -
    from ok have pre: "\<forall>t \<in> set (collected args fn 0 pre). snd t = None"
      by (simp only: collected_outcomes)
    have "collected args fn 0 (transportBindings ag) =
        collected args fn 0 pre @ (length pre, Some e) # collected args fn (Suc (length pre)) post"
      by (simp add: bs collected_append h e)
    then show ?thesis
      using collected_positions [of args fn 0 pre]
      by (simp add: applyFunctionFromBinding_eq series_failure [OF pre] concat_events)
  qed
  have noHandler: "applyFunctionFromBinding args fn ag = [Final None]"
    if "\<forall>b \<in> set (transportBindings ag). bindingHandler b fn = None"
    using that by (simp add: applyFunctionFromBinding_eq collected_none)
  show ?thesis
  proof (intro conjI impI)
    assume "\<forall>b \<in> set (transportBindings ag). \<forall>h. bindingHandler b fn = Some h \<longrightarrow> h args = None"
    then show "applyFunctionFromBinding args fn ag =
        concat (map (\<lambda>i. [Invoked i, Completed i None])
          (filter (\<lambda>i. bindingHandler (transportBindings ag ! i) fn \<noteq> None)
             [0..<length (transportBindings ag)])) @ [Final None]"
      by (rule success)
  next
    assume "transportBindings ag = pre @ b # post \<and> bindingHandler b fn = Some h \<and> h args = Some e \<and>
       (\<forall>b' \<in> set pre. \<forall>h'. bindingHandler b' fn = Some h' \<longrightarrow> h' args = None)"
    then show "applyFunctionFromBinding args fn ag =
        concat (map (\<lambda>i. [Invoked i, Completed i None])
          (filter (\<lambda>i. bindingHandler (pre ! i) fn \<noteq> None) [0..<length pre])) @
        [Invoked (length pre), Completed (length pre) (Some e), Final (Some e)]"
      using failure by blast
  next
    assume "\<forall>b \<in> set (transportBindings ag). bindingHandler b fn = None"
    then show "applyFunctionFromBinding args fn ag = [Final None]"
      by (rule noHandler)
  qed
qed

text \<open>
  The theorem at the bindings of the spec's example, a binding with no handler, one
  whose handler fails and one whose handler succeeds; at bindings that all succeed; and
  at an event that no binding handles.
\<close>

theorem broadcast_spec_witness:
  "applyFunctionFromBinding [1, 2, 3] ''commandHandler''
       \<lparr>transportBindings = [quietBinding, failingBinding, workingBinding]\<rparr> =
     [Invoked 1, Completed 1 (Some ''failed''), Final (Some ''failed'')]
   \<and> applyFunctionFromBinding [1, 2, 3] ''commandHandler''
       \<lparr>transportBindings = [quietBinding, workingBinding, workingBinding]\<rparr> =
     [Invoked 1, Completed 1 None, Invoked 2, Completed 2 None, Final None]
   \<and> applyFunctionFromBinding [1] ''configurationHandler''
       \<lparr>transportBindings = [quietBinding, failingBinding, workingBinding]\<rparr> =
     [Final None]"
proof -
  have upt3: "[0..<3] = [0, 1, 2]" by (simp add: upt_rec)
  note spec = broadcast_spec [where 'c = unit and 'e = string]
  have a: "applyFunctionFromBinding [1, 2, 3] ''commandHandler''
       \<lparr>transportBindings = [quietBinding, failingBinding, workingBinding]\<rparr> =
     [Invoked 1, Completed 1 (Some ''failed''), Final (Some ''failed'')]"
    using spec [of "\<lparr>transportBindings = [quietBinding, failingBinding, workingBinding]\<rparr>"
        "''commandHandler''" "[1, 2, 3]" "[quietBinding]" failingBinding "[workingBinding]"
        "\<lambda>args. Some ''failed''" "''failed''"]
    by (simp add: quietBinding_def failingBinding_def workingBinding_def)
  have b: "applyFunctionFromBinding [1, 2, 3] ''commandHandler''
       \<lparr>transportBindings = [quietBinding, workingBinding, workingBinding]\<rparr> =
     [Invoked 1, Completed 1 None, Invoked 2, Completed 2 None, Final None]"
    using spec [of "\<lparr>transportBindings = [quietBinding, workingBinding, workingBinding]\<rparr>"
        "''commandHandler''" "[1, 2, 3]"]
    by (simp add: quietBinding_def failingBinding_def workingBinding_def upt3)
  have c: "applyFunctionFromBinding [1] ''configurationHandler''
       \<lparr>transportBindings = [quietBinding, failingBinding, workingBinding]\<rparr> =
     [Final None]"
    using spec [of "\<lparr>transportBindings = [quietBinding, failingBinding, workingBinding]\<rparr>"
        "''configurationHandler''" "[1]"]
    by (simp add: quietBinding_def failingBinding_def workingBinding_def)
  from a b c show ?thesis by simp
qed

section \<open>Starting and stopping the bindings: the map\<close>

lemma invoked_append: "invoked (xs @ ys) = invoked xs @ invoked ys"
  by (induction xs rule: invoked.induct) auto

lemma completed_append: "completed (xs @ ys) = completed xs @ completed ys"
  by (induction xs rule: completed.induct) auto

lemma finals_append: "finals (xs @ ys) = finals xs @ finals ys"
  by (induction xs rule: finals.induct) auto

lemma firstError_append:
  "firstError (xs @ ys) = (case firstError xs of Some e \<Rightarrow> Some e | None \<Rightarrow> firstError ys)"
  by (induction xs rule: firstError.induct) auto

lemma firstError_None: "(firstError evs = None) = (\<forall>lr \<in> set (completed evs). snd lr = None)"
  by (induction evs rule: firstError.induct) auto

lemma firstError_Cons:
  "firstError (ev # evs) = (case firstError [ev] of Some e \<Rightarrow> Some e | None \<Rightarrow> firstError evs)"
  using firstError_append [of "[ev]" evs] by simp

lemma firstError_skip:
  assumes "firstError [ev] = None"
    and "\<exists>pre l post. evs = pre @ Completed l (Some e) # post \<and> firstError pre = None"
  shows "\<exists>pre l post. ev # evs = pre @ Completed l (Some e) # post \<and> firstError pre = None"
proof -
  from assms(2) obtain pre l post
    where evs: "evs = pre @ Completed l (Some e) # post" and pre: "firstError pre = None"
    by (elim exE conjE)
  have a: "ev # evs = (ev # pre) @ Completed l (Some e) # post"
    by (simp only: evs append_Cons)
  have b: "firstError (ev # pre) = None"
    by (simp only: firstError_Cons [of ev pre] assms(1) option.case pre)
  show ?thesis
    by (rule exI [of _ "ev # pre"], rule exI [of _ l], rule exI [of _ post], rule conjI [OF a b])
qed

lemma firstError_here:
  "\<exists>pre l' post. Completed l (Some e) # evs = pre @ Completed l' (Some e) # post \<and>
     firstError pre = None"
  by (rule exI [of _ "[]"], rule exI [of _ l], rule exI [of _ evs]) simp

text \<open>An error that is reported has a first report, with only successes before it.\<close>

lemma firstError_Some:
  "firstError evs = Some e \<Longrightarrow>
   \<exists>pre l post. evs = pre @ Completed l (Some e) # post \<and> firstError pre = None"
proof (induction evs rule: firstError.induct)
  case 1
  then show ?case by simp
next
  case (2 l e' evs)
  then have "e' = e" by simp
  then show ?case using firstError_here [of l e evs] by simp
qed ((rule firstError_skip; simp)+)

subsection \<open>The events of the loop and of the later completions\<close>

lemma invoked_dispatch: "invoked (dispatch i tasks) = [i..<i + length tasks]"
  by (induction i tasks rule: dispatch.induct) (auto simp: upt_rec)

lemma finals_dispatch: "finals (dispatch i tasks) = []"
  by (induction i tasks rule: dispatch.induct) auto

lemma completed_dispatch:
  "completed (dispatch i tasks) =
     map (\<lambda>j. (i + j, outcome (tasks ! j)))
       (filter (\<lambda>j. \<not> isLater (tasks ! j)) [0..<length tasks])"
proof (induction i tasks rule: dispatch.induct)
  case (1 i)
  then show ?case by simp
next
  case (2 i r tasks)
  then show ?case by (simp add: upt_0_Suc filter_map comp_def del: upt_Suc)
next
  case (3 i r tasks)
  then show ?case by (simp add: upt_0_Suc filter_map comp_def del: upt_Suc)
qed

lemma dispatch_last:
  "tasks \<noteq> [] \<Longrightarrow> \<forall>t \<in> set tasks. \<not> isLater t \<Longrightarrow>
   \<exists>l r. last (dispatch i tasks) = Completed l r"
proof (induction i tasks rule: dispatch.induct)
  case (1 i)
  then show ?case by simp
next
  case (2 i r tasks)
  then show ?case by (cases tasks) auto
next
  case (3 i r tasks)
  then show ?case by simp
qed

lemma invoked_completions: "invoked (map (\<lambda>i. Completed i (f i)) js) = []"
  by (induction js) auto

lemma finals_completions: "finals (map (\<lambda>i. Completed i (f i)) js) = []"
  by (induction js) auto

lemma completed_completions:
  "completed (map (\<lambda>i. Completed i (f i)) js) = map (\<lambda>i. (i, f i)) js"
  by (induction js) auto

text \<open>Every call that completes later does so once, whatever the schedule.\<close>

lemma laterOrder_distinct: "distinct (laterOrder tasks sched)"
  by (auto simp: laterOrder_def Let_def)

lemma laterOrder_set:
  "set (laterOrder tasks sched) = {i. i < length tasks \<and> isLater (tasks ! i)}"
  by (auto simp: laterOrder_def Let_def)

lemma asyncMap_raw:
  "asyncMap tasks sched =
     (finish (length tasks) (rawEvents tasks sched), firstError (rawEvents tasks sched))"
  by (simp add: asyncMap_def rawEvents_def Let_def)

lemma invoked_raw: "invoked (rawEvents tasks sched) = [0..<length tasks]"
  by (simp add: rawEvents_def invoked_append invoked_dispatch invoked_completions)

lemma finals_raw: "finals (rawEvents tasks sched) = []"
  by (simp add: rawEvents_def finals_append finals_dispatch finals_completions)

lemma completed_raw:
  "completed (rawEvents tasks sched) =
     map (\<lambda>j. (j, outcome (tasks ! j)))
       (filter (\<lambda>j. \<not> isLater (tasks ! j)) [0..<length tasks] @ laterOrder tasks sched)"
  by (simp add: rawEvents_def completed_append completed_dispatch completed_completions)

lemma completed_raw_positions:
  "distinct (map fst (completed (rawEvents tasks sched)))"
  "set (map fst (completed (rawEvents tasks sched))) = {..<length tasks}"
proof -
  have m: "map fst (completed (rawEvents tasks sched)) =
      filter (\<lambda>j. \<not> isLater (tasks ! j)) [0..<length tasks] @ laterOrder tasks sched"
    by (simp add: completed_raw comp_def)
  show "distinct (map fst (completed (rawEvents tasks sched)))"
    unfolding m by (auto simp: laterOrder_distinct laterOrder_set)
  show "set (map fst (completed (rawEvents tasks sched))) = {..<length tasks}"
    unfolding m by (auto simp: laterOrder_set)
qed

lemma completed_raw_length: "length (completed (rawEvents tasks sched)) = length tasks"
proof -
  have "length (completed (rawEvents tasks sched)) =
      length (map fst (completed (rawEvents tasks sched)))"
    by simp
  also have "\<dots> = card (set (map fst (completed (rawEvents tasks sched))))"
    using completed_raw_positions(1) [of tasks sched] by (simp only: distinct_card)
  also have "\<dots> = length tasks"
    by (simp only: completed_raw_positions(2)) simp
  finally show ?thesis .
qed

lemma completed_raw_set:
  "set (completed (rawEvents tasks sched)) = (\<lambda>j. (j, outcome (tasks ! j))) ` {..<length tasks}"
proof -
  have "set (completed (rawEvents tasks sched)) =
      (\<lambda>j. (j, outcome (tasks ! j))) ` set (map fst (completed (rawEvents tasks sched)))"
    by (simp add: completed_raw comp_def image_Un image_image)
  then show ?thesis by (simp only: completed_raw_positions(2))
qed

lemma raw_last:
  "tasks \<noteq> [] \<Longrightarrow> \<exists>l r. last (rawEvents tasks sched) = Completed l r"
proof (cases "laterOrder tasks sched = []")
  case True
  assume ne: "tasks \<noteq> []"
  from True have "{i. i < length tasks \<and> isLater (tasks ! i)} = {}"
    using laterOrder_set [of tasks sched] by simp
  then have "\<forall>t \<in> set tasks. \<not> isLater t" by (auto simp: in_set_conv_nth)
  with ne True show ?thesis by (simp add: rawEvents_def dispatch_last)
next
  case False
  then show ?thesis by (simp add: rawEvents_def last_map)
qed

lemma firstError_raw_None:
  "(firstError (rawEvents tasks sched) = None) = (\<forall>t \<in> set tasks. outcome t = None)"
  by (auto simp: firstError_None completed_raw_set all_set_conv_all_nth)

subsection \<open>Where the final callback is called\<close>

lemma invoked_finish: "invoked (finish k evs) = invoked evs"
  by (induction k evs rule: finish.induct) auto

lemma completed_finish: "completed (finish k evs) = completed evs"
  by (induction k evs rule: finish.induct) auto

lemma completed_nonempty: "Completed l r \<in> set evs \<Longrightarrow> completed evs \<noteq> []"
  by (induction evs rule: completed.induct) auto

text \<open>
  When every call succeeds and the last event is the last completion, the final callback
  comes at the very end.
\<close>

lemma finish_success:
  "firstError evs = None \<Longrightarrow> length (completed evs) = k \<Longrightarrow>
   evs = [] \<or> (\<exists>l r. last evs = Completed l r) \<Longrightarrow>
   finish k evs = evs @ [Final None]"
proof (induction k evs rule: finish.induct)
  case (1 evs)
  show ?case
  proof (cases "evs = []")
    case True
    then show ?thesis by simp
  next
    case False
    with 1(3) obtain l r where "last evs = Completed l r" by auto
    with False have "Completed l r \<in> set evs" using last_in_set by metis
    then have "completed evs \<noteq> []" by (rule completed_nonempty)
    with 1(2) show ?thesis by simp
  qed
qed (auto split: if_splits)

text \<open>The first error is followed at once by the final callback.\<close>

lemma finish_failure:
  "firstError pre = None \<Longrightarrow> length (completed pre) < k \<Longrightarrow>
   finish k (pre @ Completed l (Some e) # post) =
     pre @ Completed l (Some e) # Final (Some e) # post"
  by (induction k pre rule: finish.induct) auto

text \<open>
  Claim C7, as amended. For every configuration, list of bindings and order of
  completion, \<open>startTransportBindings\<close> (the spec's startAll) calls \<open>start\<close> on
  every binding, in the order of the list, whatever the bindings report; every binding
  completes once; the final callback is called exactly once; it gets no error if and only
  if every binding's \<open>start\<close> succeeds, and it is then the last event, after all
  completions; otherwise it gets the first error reported, immediately after the
  completion that reports it, without waiting for the bindings that have not completed
  or have not been started yet (the events \<open>post\<close>).
\<close>

theorem startTransportBindings_spec:
  fixes found :: "('c, 'a, 'e) binding list"
  shows "case startTransportBindings newConfig found sched of
     (ag, evs, res) \<Rightarrow>
       transportBindings ag = found
       \<and> invoked evs = [0..<length found]
       \<and> distinct (map fst (completed evs))
       \<and> set (completed evs) =
           (\<lambda>i. (i, outcome (bindingStart (found ! i) newConfig))) ` {..<length found}
       \<and> finals evs = [res]
       \<and> (res = None) = (\<forall>b \<in> set found. outcome (bindingStart b newConfig) = None)
       \<and> (res = None \<longrightarrow> (\<exists>pre. evs = pre @ [Final None] \<and> finals pre = []))
       \<and> (\<forall>e. res = Some e \<longrightarrow>
            (\<exists>pre i post. evs = pre @ Completed i (Some e) # Final (Some e) # post
               \<and> firstError pre = None \<and> finals pre = [] \<and> finals post = []))"
proof -
  define tasks where "tasks = map (\<lambda>b. bindingStart b newConfig) found"
  define raw where "raw = rawEvents tasks sched"
  have len: "length tasks = length found" by (simp add: tasks_def)
  have st: "startTransportBindings newConfig found sched =
      (\<lparr>transportBindings = found\<rparr>, finish (length found) raw, firstError raw)"
    by (simp add: startTransportBindings_def asyncMap_raw tasks_def raw_def)
  have inv: "invoked (finish (length found) raw) = [0..<length found]"
    by (simp add: invoked_finish raw_def invoked_raw len)
  have dist: "distinct (map fst (completed (finish (length found) raw)))"
    by (simp only: completed_finish raw_def completed_raw_positions(1))
  have cset: "set (completed (finish (length found) raw)) =
      (\<lambda>i. (i, outcome (bindingStart (found ! i) newConfig))) ` {..<length found}"
    by (auto simp: completed_finish raw_def completed_raw_set len tasks_def)
  have res: "(firstError raw = None) = (\<forall>b \<in> set found. outcome (bindingStart b newConfig) = None)"
    by (simp add: raw_def firstError_raw_None tasks_def)
  have count: "length (completed raw) = length found"
    by (simp add: raw_def completed_raw_length len)
  have ok: "finish (length found) raw = raw @ [Final None]" if "firstError raw = None"
  proof -
    have "raw = [] \<or> (\<exists>l r. last raw = Completed l r)"
    proof (cases "tasks = []")
      case True
      then show ?thesis by (simp add: raw_def rawEvents_def laterOrder_def)
    next
      case False
      then show ?thesis using raw_last [of tasks sched] by (simp add: raw_def)
    qed
    with count show ?thesis using that by (simp add: finish_success)
  qed
  have bad: "\<exists>pre i post. raw = pre @ Completed i (Some e) # post \<and>
        finish (length found) raw = pre @ Completed i (Some e) # Final (Some e) # post \<and>
        firstError pre = None" if "firstError raw = Some e" for e
  proof -
    from firstError_Some [OF that] obtain pre l post
      where raw: "raw = pre @ Completed l (Some e) # post" and pre: "firstError pre = None"
      by blast
    from count have "length (completed pre) < length found"
      by (simp add: raw completed_append)
    from finish_failure [OF pre this] raw pre show ?thesis by auto
  qed
  have nofinal: "finals raw = []" by (simp add: raw_def finals_raw)
  have atonce: "\<exists>pre i post. finish (length found) raw = pre @ Completed i (Some e) # Final (Some e) # post
               \<and> firstError pre = None \<and> finals pre = [] \<and> finals post = []"
    if "firstError raw = Some e" for e
  proof -
    from bad [OF that] obtain pre i post where
      r: "raw = pre @ Completed i (Some e) # post" and
      f: "finish (length found) raw = pre @ Completed i (Some e) # Final (Some e) # post" and
      p: "firstError pre = None"
      by blast
    from nofinal r have "finals pre = []" "finals post = []" by (simp_all add: finals_append)
    with f p show ?thesis by blast
  qed
  have fin: "finals (finish (length found) raw) = [firstError raw]"
  proof (cases "firstError raw")
    case None
    then show ?thesis by (simp add: ok finals_append nofinal)
  next
    case (Some e)
    from atonce [OF Some] obtain pre i post where
      "finish (length found) raw = pre @ Completed i (Some e) # Final (Some e) # post"
      "finals pre = []" "finals post = []"
      by blast
    then show ?thesis by (simp add: Some finals_append)
  qed
  have waits: "\<exists>pre. finish (length found) raw = pre @ [Final None] \<and> finals pre = []"
    if "firstError raw = None"
    using ok [OF that] nofinal by blast
  show ?thesis
    unfolding st using inv dist cset fin res waits atonce by simp
qed

text \<open>
  The theorem at three bindings of which the second fails, and at two bindings that both
  succeed, the second completing first.
\<close>

theorem startTransportBindings_spec_witness:
  "startTransportBindings () [quietBinding, failingBinding, workingBinding] [2, 0] =
     (\<lparr>transportBindings = [quietBinding, failingBinding, workingBinding]\<rparr>,
      [Invoked 0, Invoked 1, Completed 1 (Some ''boom''), Final (Some ''boom''),
       Invoked 2, Completed 2 None, Completed 0 None], Some ''boom'')
   \<and> outcome (bindingStart failingBinding ()) = Some ''boom''
   \<and> startTransportBindings () [quietBinding, workingBinding] [1, 0] =
     (\<lparr>transportBindings = [quietBinding, workingBinding]\<rparr>,
      [Invoked 0, Invoked 1, Completed 1 None, Completed 0 None, Final None], None)
   \<and> outcome (bindingStart quietBinding ()) = None
   \<and> outcome (bindingStart workingBinding ()) = None"
proof -
  have a: "snd (startTransportBindings () [quietBinding, failingBinding, workingBinding] [2, 0]) =
     ([Invoked 0, Invoked 1, Completed 1 (Some ''boom''), Final (Some ''boom''),
       Invoked 2, Completed 2 None, Completed 0 None], Some ''boom'')"
    by code_simp
  have b: "snd (startTransportBindings () [quietBinding, workingBinding] [1, 0]) =
     ([Invoked 0, Invoked 1, Completed 1 None, Completed 0 None, Final None], None)"
    by code_simp
  have c: "outcome (bindingStart failingBinding ()) = Some ''boom''"
    "outcome (bindingStart quietBinding ()) = None"
    "outcome (bindingStart workingBinding ()) = None"
    by (simp_all add: failingBinding_def quietBinding_def workingBinding_def)
  from a b c
    startTransportBindings_spec [of "[quietBinding, failingBinding, workingBinding]" "()" "[2, 0]"]
    startTransportBindings_spec [of "[quietBinding, workingBinding]" "()" "[1, 0]"]
  show ?thesis
    by (auto split: prod.splits)
qed

text \<open>
  Claim C7 as the spec has it fails in its last part: when the first binding fails at
  once, the final callback is called before the second binding is started, and before
  it completes.
\<close>

theorem startTransportBindings_counterexample:
  "snd (startTransportBindings () [failingBinding, quietBinding] []) =
     ([Invoked 0, Completed 0 (Some ''boom''), Final (Some ''boom''),
       Invoked 1, Completed 1 None], Some ''boom'')"
  by code_simp

lemma stopTransportBindings_result:
  "(snd (stopTransportBindings ag sched) = None) =
   (\<forall>b \<in> set (transportBindings ag). outcome (bindingStop b) = None)"
  by (simp add: stopTransportBindings_def asyncMap_raw firstError_raw_None)

text \<open>
  What \<open>stop\<close> does, step by step: it first stops the bindings; it calls
  \<open>resetMiddlewares\<close> only if stopping the bindings reported no error (which is the
  case exactly when every binding's \<open>stop\<close> succeeds), and \<open>deactivate\<close> only if
  \<open>resetMiddlewares\<close> reported no error as well. Whatever the steps report, it then
  calls its caller's callback, once and with no error, as its last action.
\<close>

lemma stop_trace:
  fixes ag :: "('c, 'a, 'e) agent"
  shows "stop ag sched resetMiddlewares deactivate =
     Invoked StopTransportBindings #
     Completed StopTransportBindings (snd (stopTransportBindings ag sched)) #
     (if snd (stopTransportBindings ag sched) = None
      then Invoked ResetMiddlewares # Completed ResetMiddlewares resetMiddlewares #
           (if resetMiddlewares = None
            then [Invoked Deactivate, Completed Deactivate deactivate] else [])
      else []) @ [Final None]
   \<and> (snd (stopTransportBindings ag sched) = None) =
       (\<forall>b \<in> set (transportBindings ag). outcome (bindingStop b) = None)
   \<and> finals (stop ag sched resetMiddlewares deactivate) = [None]
   \<and> last (stop ag sched resetMiddlewares deactivate) = Final None"
proof -
  have trace: "stop ag sched resetMiddlewares deactivate =
     Invoked StopTransportBindings #
     Completed StopTransportBindings (snd (stopTransportBindings ag sched)) #
     (if snd (stopTransportBindings ag sched) = None
      then Invoked ResetMiddlewares # Completed ResetMiddlewares resetMiddlewares #
           (if resetMiddlewares = None
            then [Invoked Deactivate, Completed Deactivate deactivate] else [])
      else []) @ [Final None]"
    by (cases "snd (stopTransportBindings ag sched)"; cases resetMiddlewares; cases deactivate)
      (simp_all add: stop_def)
  have fin: "finals (stop ag sched resetMiddlewares deactivate) = [None]"
    unfolding trace by (simp add: finals_append)
  have lst: "last (stop ag sched resetMiddlewares deactivate) = Final None"
    unfolding trace by simp
  from trace stopTransportBindings_result [of ag sched] fin lst show ?thesis
    by (intro conjI)
qed

text \<open>
  Claim C2. The claim says that \<open>stop\<close> stops the bindings, then resets the
  middlewares, then deactivates the backend, in that order and regardless of intermediate
  errors, and that it always reports success. The code does not do the first: at an
  agent whose only binding fails to stop, with a library whose \<open>resetMiddlewares\<close> and
  \<open>deactivate\<close> would both succeed, neither of the two is called, and \<open>stop\<close>
  reports success with the backend still active.
\<close>

theorem stop_skips_deactivation:
  "stop \<lparr>transportBindings = [failingBinding]\<rparr> [] None None =
     [Invoked StopTransportBindings, Completed StopTransportBindings (Some ''boom''), Final None]
   \<and> Invoked ResetMiddlewares \<notin>
       set (stop \<lparr>transportBindings = [failingBinding]\<rparr> [] (None :: string option) None)
   \<and> Invoked Deactivate \<notin>
       set (stop \<lparr>transportBindings = [failingBinding]\<rparr> [] (None :: string option) None)"
  by code_simp

end
